theory Spec2Isabelle
  imports Main "HOL-Library.Word"
begin

unbundle bit_operations_syntax

section \<open>Bytes and strings\<close>

text \<open>
  A Go \<open>string\<close> is a sequence of bytes, and so is an Isabelle \<open>string\<close> (a list of 8-bit
  characters). A Go \<open>[]byte\<close> is a list of 8-bit words; where the code tells a nil slice
  from an empty one (\<open>a.salt != nil\<close> in \<open>makeSalt\<close>), the field is an \<open>option\<close> with
  \<open>None\<close> for nil. The model is of a 64-bit platform: \<open>uint\<close> and \<open>int\<close> have 64 bits.
\<close>

type_synonym byte = "8 word"
type_synonym uint = "64 word"
type_synonym uint32 = "32 word"
type_synonym uint8 = "8 word"

definition bytes_of_string :: "string \<Rightarrow> byte list" where
  \<comment> \<open>the conversion \<open>[]byte(s)\<close>\<close>
  "bytes_of_string s = map of_char s"

definition slice_bytes :: "byte list option \<Rightarrow> byte list" where
  \<comment> \<open>the elements of a slice; a nil slice has none\<close>
  "slice_bytes s = (case s of None \<Rightarrow> [] | Some bs \<Rightarrow> bs)"

section \<open>strings.Split with a one-byte separator\<close>

text \<open>
  \<open>strings.Split(s, sep)\<close> looks for the next separator, cuts the text before it off and
  goes on after it; what is left when there is no separator any more is the last element.
  So the result has one element more than there are separators, and the empty string
  gives one empty element.
\<close>

function Split :: "string \<Rightarrow> char \<Rightarrow> string list" where
  "Split s sep =
     (case dropWhile (\<lambda>c. c \<noteq> sep) s of
        [] \<Rightarrow> [s]
      | _ # rest \<Rightarrow> takeWhile (\<lambda>c. c \<noteq> sep) s # Split rest sep)"
  by pat_completeness auto
termination
proof (relation "measure (\<lambda>(s, sep). length s)")
  show "wf (measure (\<lambda>(s, sep). length s))" by simp
next
  fix s :: string and sep x rest
  assume "dropWhile (\<lambda>c. c \<noteq> sep) s = x # rest"
  then have "length (dropWhile (\<lambda>c. c \<noteq> sep) s) = Suc (length rest)" by simp
  moreover have "length (dropWhile (\<lambda>c. c \<noteq> sep) s) \<le> length s"
    by (rule length_dropWhile_le)
  ultimately show "((rest, sep), (s, sep)) \<in> measure (\<lambda>(s, sep). length s)" by simp
qed

declare Split.simps [simp del]

section \<open>encoding/base64: RawStdEncoding\<close>

text \<open>
  The standard alphabet without padding. \<open>decodeMap\<close> is built as the library builds it:
  every entry is \<open>0xFF\<close>, then entry \<open>encoder[i]\<close> is set to \<open>i\<close>.
\<close>

definition encodeStd :: string where
  "encodeStd = ''ABCDEFGHIJKLMNOPQRSTUVWXYZabcdefghijklmnopqrstuvwxyz0123456789+/''"

primrec buildMap :: "string \<Rightarrow> nat \<Rightarrow> (char \<Rightarrow> byte) \<Rightarrow> char \<Rightarrow> byte" where
  "buildMap [] i m = m"
| "buildMap (c # cs) i m = buildMap cs (Suc i) (m(c := of_nat i))"

definition decodeMap :: "char \<Rightarrow> byte" where
  "decodeMap = buildMap encodeStd 0 (\<lambda>_. 0xFF)"

definition encode6 :: "uint \<Rightarrow> char" where
  \<comment> \<open>\<open>enc.encode[v & 0x3F]\<close>\<close>
  "encode6 v = encodeStd ! unat (v AND 0x3F)"

text \<open>
  \<open>EncodeToString\<close>: three source bytes give four characters; a rest of one byte gives
  two characters and a rest of two bytes gives three, with no padding character.
\<close>

fun EncodeToString :: "byte list \<Rightarrow> string" where
  "EncodeToString (b0 # b1 # b2 # src) =
     (let val = push_bit 16 (ucast b0) OR push_bit 8 (ucast b1) OR ucast b2
      in [encode6 (drop_bit 18 val), encode6 (drop_bit 12 val),
          encode6 (drop_bit 6 val), encode6 val] @ EncodeToString src)"
| "EncodeToString [b0, b1] =
     (let val = push_bit 16 (ucast b0) OR push_bit 8 (ucast b1)
      in [encode6 (drop_bit 18 val), encode6 (drop_bit 12 val), encode6 (drop_bit 6 val)])"
| "EncodeToString [b0] =
     (let val = push_bit 16 (ucast b0)
      in [encode6 (drop_bit 18 val), encode6 (drop_bit 12 val)])"
| "EncodeToString [] = []"

datatype CorruptInputError = CorruptInputError

definition quantumBytes :: "nat \<Rightarrow> byte list \<Rightarrow> byte list" where
  \<comment> \<open>the end of \<open>decodeQuantum\<close>: \<open>dlen\<close> six-bit values (the rest of \<open>dbuf\<close> is zero)
      give \<open>dlen - 1\<close> bytes\<close>
  "quantumBytes dlen dbuf =
     (let d = dbuf @ replicate (4 - length dbuf) 0;
          val = push_bit 18 (ucast (d ! 0)) OR push_bit 12 (ucast (d ! 1))
                  OR push_bit 6 (ucast (d ! 2)) OR (ucast (d ! 3) :: uint)
      in take (dlen - 1) [ucast (drop_bit 16 val), ucast (drop_bit 8 val), ucast val])"

text \<open>
  \<open>DecodeString\<close> for an encoding without padding and without strict mode: characters of
  the alphabet are collected four at a time, carriage return and line feed are skipped,
  every other byte is a \<open>CorruptInputError\<close>; at the end of the input a lone character
  is an error and two or three characters give one or two bytes. \<open>dbuf\<close> holds the
  six-bit values of the quantum being read. The position an error carries is left out.
\<close>

fun decodeLoop :: "string \<Rightarrow> byte list \<Rightarrow> CorruptInputError + byte list" where
  "decodeLoop [] dbuf =
     (if length dbuf = 0 then Inr []
      else if length dbuf = 1 then Inl CorruptInputError
      else Inr (quantumBytes (length dbuf) dbuf))"
| "decodeLoop (c # src) dbuf =
     (let out = decodeMap c in
      if out \<noteq> 0xFF then
        (if length dbuf = 3
         then (case decodeLoop src [] of
                 Inl e \<Rightarrow> Inl e
               | Inr dst \<Rightarrow> Inr (quantumBytes 4 (dbuf @ [out]) @ dst))
         else decodeLoop src (dbuf @ [out]))
      else if c = CHR 0x0A \<or> c = CHR 0x0D then decodeLoop src dbuf
      else Inl CorruptInputError)"

definition DecodeString :: "string \<Rightarrow> CorruptInputError + byte list" where
  "DecodeString s = decodeLoop s []"

section \<open>crypto/subtle\<close>

definition ConstantTimeByteEq :: "uint8 \<Rightarrow> uint8 \<Rightarrow> int" where
  \<comment> \<open>\<open>int((uint32(x^y) - 1) >> 31)\<close>\<close>
  "ConstantTimeByteEq x y = uint (drop_bit 31 ((ucast (x XOR y) :: uint32) - 1))"

definition ConstantTimeCompare :: "byte list \<Rightarrow> byte list \<Rightarrow> int" where
  \<comment> \<open>0 for different lengths; else every \<open>x[i] ^ y[i]\<close> is or-ed into \<open>v\<close>\<close>
  "ConstantTimeCompare x y =
     (if length x \<noteq> length y then 0
      else ConstantTimeByteEq (fold (\<lambda>(a, b) v. v OR (a XOR b)) (zip x y) 0) 0)"

section \<open>fmt: the verb \<open>%d\<close> of Sprintf\<close>

function FormatUint :: "nat \<Rightarrow> string" where
  "FormatUint n =
     (if n < 10 then [''0123456789'' ! n]
      else FormatUint (n div 10) @ [''0123456789'' ! (n mod 10)])"
  by pat_completeness auto
termination
  by (relation "measure id") auto

declare FormatUint.simps [simp del]

definition FormatInt :: "int \<Rightarrow> string" where
  "FormatInt i = (if i < 0 then CHR ''-'' # FormatUint (nat (- i)) else FormatUint (nat i))"

section \<open>fmt: Sscanf with the verb \<open>%d\<close>\<close>

text \<open>
  The scanner reads its input rune by rune and stops as soon as the format is used up:
  input left after the last verb is not an error. The literals of the two formats of
  this program (\<open>v=\<close>, \<open>m=\<close>, \<open>,t=\<close>, \<open>,p=\<close>) and the characters a number is made of
  are ASCII, so a rune is one of them exactly when the next byte is. Only the test for a
  space looks at runes of several bytes; \<open>spaceRuneWidth\<close> gives the number of bytes of
  the space rune the input starts with (\<open>isSpace\<close>: U+0009 to U+000D, U+0020, U+0085,
  U+00A0, U+1680, U+2000 to U+200A, U+2028, U+2029, U+202F, U+205F, U+3000, in UTF-8),
  and 0 when it starts with none. The scanner's limit of \<open>2 ^ 30\<close> runes read for one
  verb is not part of the model.
\<close>

datatype scan_error =
    ErrUnexpectedEOF          \<comment> \<open>the input ends inside a literal of the format\<close>
  | EOF                       \<comment> \<open>the input ends where a number has to start\<close>
  | InputDoesNotMatchFormat
  | UnexpectedNewline
  | ExpectedInteger
  | ErrSyntax                 \<comment> \<open>strconv: the token is not a number in base 10\<close>
  | ErrRange                  \<comment> \<open>strconv: the number does not fit 64 bits\<close>
  | IntegerOverflow           \<comment> \<open>the number does not fit the operand's type\<close>

fun advance :: "string \<Rightarrow> string \<Rightarrow> scan_error + string" where
  \<comment> \<open>the literal of the format, the input\<close>
  "advance [] inp = Inr inp"
| "advance (f # fs) [] = Inl ErrUnexpectedEOF"
| "advance (f # fs) (c # cs) = (if f = c then advance fs cs else Inl InputDoesNotMatchFormat)"

fun spaceRuneWidth :: "string \<Rightarrow> nat" where
  "spaceRuneWidth [] = 0"
| "spaceRuneWidth (c # cs) =
     (if c \<in> {CHR 0x09, CHR 0x0A, CHR 0x0B, CHR 0x0C, CHR 0x0D, CHR 0x20} then 1
      else if c = CHR 0xC2 then
        (case cs of
           d # _ \<Rightarrow> if d = CHR 0x85 \<or> d = CHR 0xA0 then 2 else 0
         | [] \<Rightarrow> 0)
      else if c = CHR 0xE1 then
        (case cs of
           d # e # _ \<Rightarrow> if d = CHR 0x9A \<and> e = CHR 0x80 then 3 else 0
         | _ \<Rightarrow> 0)
      else if c = CHR 0xE2 then
        (case cs of
           d # e # _ \<Rightarrow>
             if d = CHR 0x80 \<and>
                ((0x80 \<le> (of_char e :: nat) \<and> (of_char e :: nat) \<le> 0x8A)
                 \<or> e = CHR 0xA8 \<or> e = CHR 0xA9 \<or> e = CHR 0xAF) then 3
             else if d = CHR 0x81 \<and> e = CHR 0x9F then 3
             else 0
         | _ \<Rightarrow> 0)
      else if c = CHR 0xE3 then
        (case cs of
           d # e # _ \<Rightarrow> if d = CHR 0x80 \<and> e = CHR 0x80 then 3 else 0
         | _ \<Rightarrow> 0)
      else 0)"

text \<open>
  \<open>SkipSpace\<close> with \<open>nlIsSpace = false\<close>, as Sscanf sets it: a carriage return before a
  line feed is passed over, a line feed is an error, any other space is skipped, and the
  first rune that is no space is put back.
\<close>

function SkipSpace :: "string \<Rightarrow> scan_error + string" where
  "SkipSpace inp =
     (case inp of
        [] \<Rightarrow> Inr []
      | c # cs \<Rightarrow>
          if c = CHR 0x0D \<and> cs \<noteq> [] \<and> hd cs = CHR 0x0A then SkipSpace cs
          else if c = CHR 0x0A then Inl UnexpectedNewline
          else if spaceRuneWidth inp = 0 then Inr inp
          else SkipSpace (drop (spaceRuneWidth inp) inp))"
  by pat_completeness auto
termination
  by (relation "measure length") auto

declare SkipSpace.simps [simp del]

definition decimalDigits :: string where
  "decimalDigits = ''0123456789_''"

definition sign :: string where
  "sign = ''+-''"

definition scanNumber :: "string \<Rightarrow> scan_error + (string \<times> string)" where
  \<comment> \<open>the token and the input after it\<close>
  "scanNumber inp =
     (if inp = [] then Inl EOF
      else if hd inp \<notin> set decimalDigits then Inl ExpectedInteger
      else Inr (takeWhile (\<lambda>c. c \<in> set decimalDigits) inp,
                dropWhile (\<lambda>c. c \<in> set decimalDigits) inp))"

text \<open>
  \<open>strconv.ParseUint(tok, 10, 64)\<close>: the underscore the scanner lets into a token is a
  syntax error in base 10; \<open>cutoff\<close> is \<open>maxUint64 / 10 + 1\<close>.
\<close>

definition maxUint64 :: nat where
  "maxUint64 = 2 ^ 64 - 1"

fun ParseUint_loop :: "string \<Rightarrow> nat \<Rightarrow> scan_error + nat" where
  "ParseUint_loop [] n = Inr n"
| "ParseUint_loop (c # cs) n =
     (if \<not> (of_char CHR ''0'' \<le> (of_char c :: nat) \<and> (of_char c :: nat) \<le> of_char CHR ''9'')
      then Inl ErrSyntax
      else if n \<ge> maxUint64 div 10 + 1 then Inl ErrRange
      else if n * 10 + (of_char c - of_char CHR ''0'') > maxUint64 then Inl ErrRange
      else ParseUint_loop cs (n * 10 + (of_char c - of_char CHR ''0'')))"

definition ParseUint :: "string \<Rightarrow> scan_error + nat" where
  "ParseUint s = (if s = [] then Inl ErrSyntax else ParseUint_loop s 0)"

definition ParseInt :: "string \<Rightarrow> scan_error + int" where
  \<comment> \<open>\<open>strconv.ParseInt(tok, 10, 64)\<close>\<close>
  "ParseInt s =
     (if s = [] then Inl ErrSyntax
      else
        let neg = (hd s = CHR ''-'');
            s1 = (if hd s = CHR ''+'' \<or> hd s = CHR ''-'' then tl s else s)
        in case ParseUint s1 of
             Inl e \<Rightarrow> Inl e
           | Inr un \<Rightarrow>
               if \<not> neg \<and> un \<ge> 2 ^ 63 then Inl ErrRange
               else if neg \<and> un > 2 ^ 63 then Inl ErrRange
               else Inr (if neg then - int un else int un))"

definition scanUint :: "nat \<Rightarrow> string \<Rightarrow> scan_error + (nat \<times> string)" where
  \<comment> \<open>the operand's width in bits, the input; the value and the input after it\<close>
  "scanUint bitSize inp =
     (case SkipSpace inp of
        Inl e \<Rightarrow> Inl e
      | Inr inp1 \<Rightarrow>
          if inp1 = [] then Inl EOF
          else case scanNumber inp1 of
            Inl e \<Rightarrow> Inl e
          | Inr (tok, rest) \<Rightarrow>
              (case ParseUint tok of
                 Inl e \<Rightarrow> Inl e
               | Inr i \<Rightarrow> if i mod 2 ^ bitSize \<noteq> i then Inl IntegerOverflow else Inr (i, rest)))"

definition scanInt :: "nat \<Rightarrow> string \<Rightarrow> scan_error + (int \<times> string)" where
  "scanInt bitSize inp =
     (case SkipSpace inp of
        Inl e \<Rightarrow> Inl e
      | Inr inp1 \<Rightarrow>
          if inp1 = [] then Inl EOF
          else
            let sgn = (if hd inp1 \<in> set sign then [hd inp1] else []);
                inp2 = (if hd inp1 \<in> set sign then tl inp1 else inp1)
            in case scanNumber inp2 of
                 Inl e \<Rightarrow> Inl e
               | Inr (tok, rest) \<Rightarrow>
                   (case ParseInt (sgn @ tok) of
                      Inl e \<Rightarrow> Inl e
                    | Inr i \<Rightarrow>
                        if i < - (2 ^ (bitSize - 1)) \<or> 2 ^ (bitSize - 1) \<le> i
                        then Inl IntegerOverflow else Inr (i, rest)))"

text \<open>
  One \<open>%d\<close> of \<open>doScanf\<close>: spaces are skipped, then the operand is scanned (which skips
  spaces once more).
\<close>

definition verb_d_uint :: "nat \<Rightarrow> string \<Rightarrow> scan_error + (nat \<times> string)" where
  "verb_d_uint bitSize inp =
     (case SkipSpace inp of Inl e \<Rightarrow> Inl e | Inr inp1 \<Rightarrow> scanUint bitSize inp1)"

definition verb_d_int :: "nat \<Rightarrow> string \<Rightarrow> scan_error + (int \<times> string)" where
  "verb_d_int bitSize inp =
     (case SkipSpace inp of Inl e \<Rightarrow> Inl e | Inr inp1 \<Rightarrow> scanInt bitSize inp1)"

definition Sscanf_version :: "string \<Rightarrow> scan_error + int" where
  \<comment> \<open>\<open>fmt.Sscanf(str, "v=%d", &version)\<close> with \<open>version\<close> an \<open>int\<close>\<close>
  "Sscanf_version str =
     (case advance ''v='' str of
        Inl e \<Rightarrow> Inl e
      | Inr inp \<Rightarrow>
          (case verb_d_int 64 inp of Inl e \<Rightarrow> Inl e | Inr (version, rest) \<Rightarrow> Inr version))"

definition Sscanf_options :: "string \<Rightarrow> scan_error + (uint32 \<times> uint32 \<times> uint8)" where
  \<comment> \<open>\<open>fmt.Sscanf(str, "m=%d,t=%d,p=%d", &m, &i, &p)\<close> with \<open>m\<close>, \<open>i\<close> of type \<open>uint32\<close> and
      \<open>p\<close> of type \<open>uint8\<close>\<close>
  "Sscanf_options str =
     (case advance ''m='' str of
        Inl e \<Rightarrow> Inl e
      | Inr inp1 \<Rightarrow>
     (case verb_d_uint 32 inp1 of
        Inl e \<Rightarrow> Inl e
      | Inr (m, inp2) \<Rightarrow>
     (case advance '',t='' inp2 of
        Inl e \<Rightarrow> Inl e
      | Inr inp3 \<Rightarrow>
     (case verb_d_uint 32 inp3 of
        Inl e \<Rightarrow> Inl e
      | Inr (i, inp4) \<Rightarrow>
     (case advance '',p='' inp4 of
        Inl e \<Rightarrow> Inl e
      | Inr inp5 \<Rightarrow>
     (case verb_d_uint 8 inp5 of
        Inl e \<Rightarrow> Inl e
      | Inr (p, rest) \<Rightarrow> Inr (of_nat m, of_nat i, of_nat p)))))))"

section \<open>golang.org/x/crypto/argon2 and crypto/rand\<close>

text \<open>
  The key derivation is not part of this program. \<open>argon2.IDKey\<close> panics when \<open>time\<close> or
  \<open>threads\<close> is below 1, and with \<open>keyLen = 0\<close> its key extraction asks BLAKE2b for a
  hash of size 0 and calls the nil hash it gets. Past these, it allocates \<open>keyLen\<close> bytes
  and fills them; what it fills them with is the parameter \<open>derive\<close>, a function of all
  of IDKey's arguments and the index of the byte, so the derivation is deterministic and
  nothing else is assumed of it. \<open>argon2.Version\<close> is \<open>0x13\<close>.
\<close>

datatype panic =
    NumberOfRoundsTooSmall      \<comment> \<open>\<open>argon2: number of rounds too small\<close>\<close>
  | ParallelismDegreeTooLow     \<comment> \<open>\<open>argon2: parallelism degree too low\<close>\<close>
  | NilPointerDereference

type_synonym kdf =
  "byte list \<Rightarrow> byte list \<Rightarrow> uint32 \<Rightarrow> uint32 \<Rightarrow> uint8 \<Rightarrow> uint32 \<Rightarrow> nat \<Rightarrow> byte"

definition IDKey ::
  "kdf \<Rightarrow> byte list \<Rightarrow> byte list \<Rightarrow> uint32 \<Rightarrow> uint32 \<Rightarrow> uint8 \<Rightarrow> uint32 \<Rightarrow> panic + byte list"
where
  "IDKey derive password salt' time mem threads keyLen =
     (if time < 1 then Inl NumberOfRoundsTooSmall
      else if threads < 1 then Inl ParallelismDegreeTooLow
      else if keyLen < 1 then Inl NilPointerDereference
      else Inr (map (derive password salt' time mem threads keyLen) [0..<unat keyLen]))"

definition Version :: int where
  "Version = 0x13"

text \<open>
  \<open>rand.Read(b)\<close> either fails or fills the whole of \<open>b\<close>; a random source is one of the
  two, and gives byte \<open>i\<close> of what it fills in.
\<close>

datatype rand_source = RandFails | RandSupplies "nat \<Rightarrow> byte"

section \<open>The package argon2\<close>

definition const_iterations :: uint32 where "const_iterations = 3"
definition const_memory :: uint32 where "const_memory = 64 * 1024"
definition const_parallelism :: uint8 where "const_parallelism = 2"
definition const_keyLength :: uint32 where "const_keyLength = 32"
definition saltLength :: uint32 where "saltLength = 16"
definition encodedSlicesCount :: nat where "encodedSlicesCount = 6"

text \<open>
  The errors of the package. A wrapped error (\<open>fmt.Errorf\<close> with \<open>%w\<close>) keeps the error
  it wraps.
\<close>

datatype err =
    ErrInvalidEncodedHash
  | ErrIncompatibleVersion
  | ErrScan                               \<comment> \<open>\<open>%w: expected a string\<close>, wrapping ErrScan\<close>
  | FailedToDecode scan_error             \<comment> \<open>\<open>failed to decode: %w\<close>\<close>
  | FailedToDecodeSalt CorruptInputError  \<comment> \<open>\<open>failed to decode salt value: %w\<close>\<close>
  | FailedToDecodeHashed CorruptInputError  \<comment> \<open>\<open>failed to decode hashed value: %w\<close>\<close>
  | FailedToDecodeOptions scan_error      \<comment> \<open>\<open>failed to decode hash options: %w\<close>\<close>
  | FailedToGenerateRandomBytes           \<comment> \<open>\<open>failed to generate random bytes: %w\<close>\<close>
  | CannotScan err                        \<comment> \<open>\<open>cannot scan due to decode error: %w\<close>\<close>

record Argon2 =
  salt :: "byte list option"
  iterations :: uint32
  memory :: uint32
  parallelism :: uint8
  keyLength :: uint32
  hashed :: "byte list option"
  isValid :: bool

definition Argon2_zero :: Argon2 where
  \<comment> \<open>the zero value \<open>Argon2{}\<close>\<close>
  "Argon2_zero =
     \<lparr>salt = None, iterations = 0, memory = 0, parallelism = 0, keyLength = 0,
      hashed = None, isValid = False\<rparr>"

definition Bytes :: "rand_source \<Rightarrow> uint32 \<Rightarrow> byte list option \<times> err option" where
  "Bytes rnd n =
     (case rnd of
        RandFails \<Rightarrow> (None, Some FailedToGenerateRandomBytes)
      | RandSupplies f \<Rightarrow> (Some (map f [0..<unat n]), None))"

text \<open>
  A method with a pointer receiver returns the receiver's new value (with its result, if
  it has one); a method with a value receiver works on a copy and returns its result.
\<close>

definition makeSalt :: "rand_source \<Rightarrow> Argon2 \<Rightarrow> Argon2 \<times> err option" where
  "makeSalt rnd a =
     (if salt a \<noteq> None then (a, None)
      else case Bytes rnd saltLength of
        (salt', Some e) \<Rightarrow> (a, Some e)
      | (salt', None) \<Rightarrow> (a\<lparr>salt := salt'\<rparr>, None))"

definition makeHash :: "kdf \<Rightarrow> Argon2 \<Rightarrow> string \<Rightarrow> panic + Argon2" where
  "makeHash derive a toHash =
     (case IDKey derive (bytes_of_string toHash) (slice_bytes (salt a))
             (iterations a) (memory a) (parallelism a) (keyLength a) of
        Inl p \<Rightarrow> Inl p
      | Inr key \<Rightarrow> Inr (a\<lparr>hashed := Some key\<rparr>))"

definition String :: "Argon2 \<Rightarrow> string" where
  "String a =
     (if \<not> isValid a then []
      else ''$argon2id$v='' @ FormatInt Version
        @ ''$m='' @ FormatUint (unat (memory a))
        @ '',t='' @ FormatUint (unat (iterations a))
        @ '',p='' @ FormatUint (unat (parallelism a))
        @ ''$'' @ EncodeToString (slice_bytes (salt a))
        @ ''$'' @ EncodeToString (slice_bytes (hashed a)))"

text \<open>
  What a \<open>driver.Value\<close> or the \<open>interface{}\<close> given to \<open>Scan\<close> holds: nil, a string, or a
  value of another type.
\<close>

datatype dyn_value =
    VNil
  | VString string
  | VBytes "byte list"
  | VInt64 "64 word"
  | VBool bool

definition Value :: "Argon2 \<Rightarrow> dyn_value \<times> err option" where
  "Value a = (if \<not> isValid a then (VNil, None) else (VString (String a), None))"

text \<open>
  \<open>Compare\<close> has a value receiver: it works on its own copy \<open>a\<close> and on the fresh \<open>b\<close>.
  \<open>Compare_run\<close> gives, next to the result, the value of \<open>a\<close> when the method returns.
\<close>

definition Compare_run :: "kdf \<Rightarrow> Argon2 \<Rightarrow> string \<Rightarrow> panic + (Argon2 \<times> bool)" where
  "Compare_run derive a toCompare =
     (let b = \<lparr>salt = salt a, iterations = iterations a, memory = memory a,
               parallelism = parallelism a, keyLength = keyLength a,
               hashed = None, isValid = True\<rparr>
      in case makeHash derive b toCompare of
           Inl p \<Rightarrow> Inl p
         | Inr b' \<Rightarrow>
             Inr (a, ConstantTimeCompare (slice_bytes (hashed a)) (slice_bytes (hashed b')) = 1))"

definition Compare :: "kdf \<Rightarrow> Argon2 \<Rightarrow> string \<Rightarrow> panic + bool" where
  "Compare derive a toCompare =
     (case Compare_run derive a toCompare of Inl p \<Rightarrow> Inl p | Inr (a', r) \<Rightarrow> Inr r)"

definition New :: "rand_source \<Rightarrow> kdf \<Rightarrow> string \<Rightarrow> panic + (Argon2 \<times> err option)" where
  "New rnd derive toHash =
     (let a = \<lparr>salt = None, iterations = const_iterations, memory = const_memory,
               parallelism = const_parallelism, keyLength = const_keyLength,
               hashed = None, isValid = True\<rparr>
      in case makeSalt rnd a of
           (a1, Some e) \<Rightarrow> Inr (Argon2_zero, Some e)
         | (a1, None) \<Rightarrow>
             (case makeHash derive a1 toHash of
                Inl p \<Rightarrow> Inl p
              | Inr a2 \<Rightarrow> Inr (a2, None)))"

definition NewByEncoded :: "string \<Rightarrow> Argon2 \<times> err option" where
  "NewByEncoded encoded =
     (let vals = Split encoded CHR ''$'' in
      if length vals \<noteq> encodedSlicesCount then (Argon2_zero, Some ErrInvalidEncodedHash)
      else case Sscanf_version (vals ! 2) of
        Inl e \<Rightarrow> (Argon2_zero, Some (FailedToDecode e))
      | Inr version \<Rightarrow>
          if version \<noteq> Version then (Argon2_zero, Some ErrIncompatibleVersion)
          else case DecodeString (vals ! 4) of
            Inl e \<Rightarrow> (Argon2_zero, Some (FailedToDecodeSalt e))
          | Inr salt' \<Rightarrow>
              (case DecodeString (vals ! 5) of
                 Inl e \<Rightarrow> (Argon2_zero, Some (FailedToDecodeHashed e))
               | Inr hashed' \<Rightarrow>
                   (case Sscanf_options (vals ! 3) of
                      Inl e \<Rightarrow> (Argon2_zero, Some (FailedToDecodeOptions e))
                    | Inr (m, i, p) \<Rightarrow>
                        (\<lparr>salt = Some salt', iterations = i, memory = m, parallelism = p,
                          keyLength = of_nat (length hashed'), hashed = Some hashed',
                          isValid = True\<rparr>, None))))"

definition Scan :: "Argon2 \<Rightarrow> dyn_value \<Rightarrow> Argon2 \<times> err option" where
  "Scan a src =
     (case src of
        VNil \<Rightarrow> (a\<lparr>isValid := False\<rparr>, None)
      | VString s \<Rightarrow>
          (case NewByEncoded s of
             (a', Some e) \<Rightarrow> (a', Some (CannotScan e))
           | (a', None) \<Rightarrow> (a', None))
      | _ \<Rightarrow> (a, Some ErrScan))"

section \<open>The properties' vocabulary\<close>

text \<open>
  The invariant of the data model: salt and hash are both absent, or both present with a
  hash of \<open>keyLength\<close> bytes.
\<close>

definition invariant :: "Argon2 \<Rightarrow> bool" where
  "invariant a =
     (case (salt a, hashed a) of
        (None, None) \<Rightarrow> True
      | (Some s, Some h) \<Rightarrow> length h = unat (keyLength a)
      | _ \<Rightarrow> False)"

text \<open>
  The values the public operations lead to: the zero value, what \<open>New\<close> and
  \<open>NewByEncoded\<close> return (with or without an error), and what \<open>Scan\<close> leaves in its
  receiver. Encoded strings are shorter than \<open>2 ^ 32\<close> bytes here.
\<close>

inductive reachable :: "kdf \<Rightarrow> Argon2 \<Rightarrow> bool" for derive :: kdf where
  reachable_zero: "reachable derive Argon2_zero"
| reachable_New: "New rnd derive toHash = Inr (a, e) \<Longrightarrow> reachable derive a"
| reachable_NewByEncoded:
    "length encoded < 2 ^ 32 \<Longrightarrow> NewByEncoded encoded = (a, e) \<Longrightarrow> reachable derive a"
| reachable_Scan_nil:
    "reachable derive a \<Longrightarrow> Scan a VNil = (a', e) \<Longrightarrow> reachable derive a'"
| reachable_Scan_string:
    "reachable derive a \<Longrightarrow> length s < 2 ^ 32 \<Longrightarrow> Scan a (VString s) = (a', e)
       \<Longrightarrow> reachable derive a'"
| reachable_Scan_other:
    "reachable derive a \<Longrightarrow> src \<noteq> VNil \<Longrightarrow> \<not> is_VString src \<Longrightarrow> Scan a src = (a', e)
       \<Longrightarrow> reachable derive a'"

text \<open>The errors the specification calls DecodeFailure.\<close>

fun is_DecodeFailure :: "err option \<Rightarrow> bool" where
  "is_DecodeFailure (Some (FailedToDecode e)) = True"
| "is_DecodeFailure (Some (FailedToDecodeSalt e)) = True"
| "is_DecodeFailure (Some (FailedToDecodeHashed e)) = True"
| "is_DecodeFailure (Some (FailedToDecodeOptions e)) = True"
| "is_DecodeFailure _ = False"

text \<open>
  The specification's format of the fourth field, \<open>m=<uint>,t=<uint>,p=<uint>\<close>, read as
  the form of the whole field: three parts between commas, each a key, \<open>=\<close> and a
  decimal number that fits the field's type. And its unpadded standard base64: characters
  of the alphabet only, in a number that an encoding can have.
\<close>

definition isDigit :: "char \<Rightarrow> bool" where
  "isDigit c = (c \<in> set ''0123456789'')"

definition dstep :: "nat \<Rightarrow> char \<Rightarrow> nat" where
  \<comment> \<open>one more decimal digit\<close>
  "dstep n c = n * 10 + (of_char c - of_char CHR ''0'')"

definition decimal_value :: "string \<Rightarrow> nat" where
  "decimal_value ds = foldl dstep 0 ds"

definition spec_uint :: "nat \<Rightarrow> string \<Rightarrow> bool" where
  "spec_uint bits ds = (ds \<noteq> [] \<and> list_all isDigit ds \<and> decimal_value ds < 2 ^ bits)"

definition spec_key_uint :: "string \<Rightarrow> nat \<Rightarrow> string \<Rightarrow> bool" where
  "spec_key_uint key bits part =
     (take (length key) part = key \<and> spec_uint bits (drop (length key) part))"

definition spec_options_field :: "string \<Rightarrow> bool" where
  "spec_options_field field =
     (case Split field CHR '','' of
        [pm, pt, pp] \<Rightarrow>
          spec_key_uint ''m='' 32 pm \<and> spec_key_uint ''t='' 32 pt \<and> spec_key_uint ''p='' 8 pp
      | _ \<Rightarrow> False)"

definition spec_raw_base64 :: "string \<Rightarrow> bool" where
  "spec_raw_base64 field =
     (list_all (\<lambda>c. c \<in> set encodeStd) field \<and> length field mod 4 \<noteq> 1)"

text \<open>
  A key derivation and a random source to run the program on: the examples below need
  some. Byte \<open>i\<close> of the key is a sum over all the arguments.
\<close>

definition example_derive :: kdf where
  "example_derive password salt' time mem threads keyLen i =
     of_nat i + sum_list password + sum_list salt' + ucast time + ucast mem + threads
       + ucast keyLen"

definition example_rand :: rand_source where
  "example_rand = RandSupplies (\<lambda>i. of_nat (7 * i + 1))"

text \<open>
  What \<open>New\<close> returns for the password \<open>password\<close> with this derivation and this source.
\<close>

definition example_salt :: "byte list" where
  "example_salt = map (\<lambda>i. of_nat (7 * i + 1)) [0..<16]"

definition example_hash :: Argon2 where
  "example_hash =
     \<lparr>salt = Some example_salt,
      iterations = 3, memory = 65536, parallelism = 2, keyLength = 32,
      hashed = Some (map (example_derive (bytes_of_string ''password'') example_salt
                            3 65536 2 32) [0..<32]),
      isValid = True\<rparr>"

text \<open>Three bytes as the 24 bits they are encoded from.\<close>

definition pack3 :: "byte \<Rightarrow> byte \<Rightarrow> byte \<Rightarrow> uint" where
  "pack3 b0 b1 b2 = push_bit 16 (ucast b0) OR push_bit 8 (ucast b1) OR ucast b2"

section \<open>Facts about the library functions\<close>

subsection \<open>Split\<close>

lemma Split_no_sep: "sep \<notin> set s \<Longrightarrow> Split s sep = [s]"
proof -
  assume "sep \<notin> set s"
  then have "dropWhile (\<lambda>c. c \<noteq> sep) s = []" by (simp add: dropWhile_eq_Nil_conv) blast
  then show ?thesis by (subst Split.simps) (simp only: list.case)
qed

lemma Split_append: "sep \<notin> set s \<Longrightarrow> Split (s @ sep # t) sep = s # Split t sep"
proof -
  assume h: "sep \<notin> set s"
  then have a: "dropWhile (\<lambda>c. c \<noteq> sep) (s @ sep # t) = sep # t"
    by (subst dropWhile_append2) auto
  from h have b: "takeWhile (\<lambda>c. c \<noteq> sep) (s @ sep # t) = s"
    by (subst takeWhile_append2) auto
  show ?thesis by (simp add: Split.simps [of "s @ sep # t"] a b)
qed

lemma Split_length: "length (Split s sep) = Suc (length (filter (\<lambda>c. c = sep) s))"
proof (induction s sep rule: Split.induct)
  case (1 s sep)
  show ?case
  proof (cases "dropWhile (\<lambda>c. c \<noteq> sep) s")
    case Nil
    then have "\<forall>c \<in> set s. c \<noteq> sep" by (simp add: dropWhile_eq_Nil_conv)
    then have "filter (\<lambda>c. c = sep) s = []" by (simp add: filter_empty_conv)
    moreover from Nil have "Split s sep = [s]" by (subst Split.simps) (simp only: list.case)
    ultimately show ?thesis by simp
  next
    case (Cons x rest)
    then have x: "x = sep" using hd_dropWhile [of "\<lambda>c. c \<noteq> sep" s] by auto
    have "s = takeWhile (\<lambda>c. c \<noteq> sep) s @ dropWhile (\<lambda>c. c \<noteq> sep) s" by simp
    then have "filter (\<lambda>c. c = sep) s = filter (\<lambda>c. c = sep) (takeWhile (\<lambda>c. c \<noteq> sep) s) @ filter (\<lambda>c. c = sep) (x # rest)"
      using Cons by (metis filter_append)
    moreover have "filter (\<lambda>c. c = sep) (takeWhile (\<lambda>c. c \<noteq> sep) s) = []"
      by (auto simp add: filter_empty_conv dest: set_takeWhileD)
    ultimately have "length (filter (\<lambda>c. c = sep) s) = Suc (length (filter (\<lambda>c. c = sep) rest))"
      using x by simp
    with Cons 1 [OF Cons] show ?thesis by (simp add: Split.simps [of s])
  qed
qed

subsection \<open>Base64: decoding an encoding gives the bytes back\<close>

lemma byte_bit_high: "8 \<le> n \<Longrightarrow> bit (b :: byte) n = False"
  using bit_imp_le_length [of b n] by auto

lemma lt8_cases:
  "n < 8 \<Longrightarrow> n = (7::nat) \<or> n = 6 \<or> n = 5 \<or> n = 4 \<or> n = 3 \<or> n = 2 \<or> n = 1 \<or> n = 0"
  by arith

lemma x3F_mask: "(0x3F :: uint) = mask 6"
  by (simp add: mask_eq_exp_minus_1)

lemma encodeStd_length: "length encodeStd = 64"
  by (simp add: encodeStd_def)

lemma encodeStd_distinct: "distinct encodeStd"
  by (simp add: encodeStd_def)

lemma buildMap_notin: "c \<notin> set cs \<Longrightarrow> buildMap cs i m c = m c"
  by (induction cs arbitrary: i m) auto

lemma buildMap_nth:
  "distinct cs \<Longrightarrow> k < length cs \<Longrightarrow> buildMap cs i m (cs ! k) = of_nat (i + k)"
proof (induction cs arbitrary: i m k)
  case Nil
  then show ?case by simp
next
  case (Cons c cs)
  show ?case
  proof (cases k)
    case 0
    with Cons.prems show ?thesis by (simp add: buildMap_notin)
  next
    case (Suc j)
    from Cons.prems Suc have "distinct cs" and "j < length cs" by simp_all
    then have "buildMap cs (Suc i) (m(c := of_nat i)) (cs ! j) = of_nat (Suc i + j)"
      by (rule Cons.IH)
    with Suc show ?thesis by simp
  qed
qed

lemma decodeMap_nth: "k < 64 \<Longrightarrow> decodeMap (encodeStd ! k) = of_nat k"
  unfolding decodeMap_def
  using buildMap_nth [OF encodeStd_distinct, of k 0] by (simp add: encodeStd_length)

lemma decodeMap_notin: "c \<notin> set encodeStd \<Longrightarrow> decodeMap c = 0xFF"
  unfolding decodeMap_def by (simp add: buildMap_notin)

lemma unat_and_3F: "unat ((v :: uint) AND 0x3F) < 64"
proof -
  have "v AND mask 6 < 2 ^ 6" by (rule and_mask_less') simp
  then show ?thesis by (simp add: x3F_mask word_less_nat_alt)
qed

lemma decodeMap_encode6: "decodeMap (encode6 v) = ucast (v AND 0x3F)"
  unfolding encode6_def using decodeMap_nth [OF unat_and_3F [of v]]
  by simp

lemma ucast_and_3F_neq: "(ucast ((v :: uint) AND 0x3F) :: byte) \<noteq> 0xFF"
proof
  assume h: "(ucast (v AND 0x3F) :: byte) = 0xFF"
  have "bit (ucast (v AND 0x3F) :: byte) 7 = False"
    by (simp add: x3F_mask bit_simps)
  with h show False by simp
qed

lemma encode6_in: "encode6 v \<in> set encodeStd"
  unfolding encode6_def using unat_and_3F [of v] by (simp add: encodeStd_length)



lemma quantum4:
  "quantumBytes 4 [ucast (drop_bit 18 (pack3 b0 b1 b2) AND 0x3F), ucast (drop_bit 12 (pack3 b0 b1 b2) AND 0x3F),
       ucast (drop_bit 6 (pack3 b0 b1 b2) AND 0x3F), ucast (pack3 b0 b1 b2 AND 0x3F)] = [b0, b1, b2]"
proof -
  let ?v = "pack3 b0 b1 b2"
  define q :: uint where "q = push_bit 18 (ucast (ucast (drop_bit 18 ?v AND 0x3F) :: byte)) OR push_bit 12 (ucast (ucast (drop_bit 12 ?v AND 0x3F) :: byte))
                  OR push_bit 6 (ucast (ucast (drop_bit 6 ?v AND 0x3F) :: byte)) OR (ucast (ucast (?v AND 0x3F) :: byte) :: uint)"
  have a: "(ucast (drop_bit 16 q) :: byte) = b0"
  proof (rule bit_word_eqI)
    fix n assume "n < LENGTH(8)"
    then have "n < 8" by simp
    from lt8_cases [OF this] show "bit (ucast (drop_bit 16 q) :: byte) n = bit b0 n"
      by (elim disjE; simp add: q_def pack3_def x3F_mask bit_simps byte_bit_high)
  qed
  have b: "(ucast (drop_bit 8 q) :: byte) = b1"
  proof (rule bit_word_eqI)
    fix n assume "n < LENGTH(8)"
    then have "n < 8" by simp
    from lt8_cases [OF this] show "bit (ucast (drop_bit 8 q) :: byte) n = bit b1 n"
      by (elim disjE; simp add: q_def pack3_def x3F_mask bit_simps byte_bit_high)
  qed
  have c: "(ucast q :: byte) = b2"
  proof (rule bit_word_eqI)
    fix n assume "n < LENGTH(8)"
    then have "n < 8" by simp
    from lt8_cases [OF this] show "bit (ucast q :: byte) n = bit b2 n"
      by (elim disjE; simp add: q_def pack3_def x3F_mask bit_simps byte_bit_high)
  qed
  have "quantumBytes 4 [ucast (drop_bit 18 ?v AND 0x3F), ucast (drop_bit 12 ?v AND 0x3F),
       ucast (drop_bit 6 ?v AND 0x3F), ucast (?v AND 0x3F)] = [ucast (drop_bit 16 q), ucast (drop_bit 8 q), ucast q]"
    unfolding quantumBytes_def q_def by (simp add: Let_def)
  then show ?thesis by (simp only: a b c)
qed

lemma quantum3:
  "quantumBytes 3 [ucast (drop_bit 18 (pack3 b0 b1 0) AND 0x3F), ucast (drop_bit 12 (pack3 b0 b1 0) AND 0x3F),
       ucast (drop_bit 6 (pack3 b0 b1 0) AND 0x3F)] = [b0, b1]"
proof -
  let ?v = "pack3 b0 b1 0"
  define q :: uint where "q = push_bit 18 (ucast (ucast (drop_bit 18 ?v AND 0x3F) :: byte)) OR push_bit 12 (ucast (ucast (drop_bit 12 ?v AND 0x3F) :: byte))
                  OR push_bit 6 (ucast (ucast (drop_bit 6 ?v AND 0x3F) :: byte)) OR (ucast (0 :: byte) :: uint)"
  have a: "(ucast (drop_bit 16 q) :: byte) = b0"
  proof (rule bit_word_eqI)
    fix n assume "n < LENGTH(8)"
    then have "n < 8" by simp
    from lt8_cases [OF this] show "bit (ucast (drop_bit 16 q) :: byte) n = bit b0 n"
      by (elim disjE; simp add: q_def pack3_def x3F_mask bit_simps byte_bit_high)
  qed
  have b: "(ucast (drop_bit 8 q) :: byte) = b1"
  proof (rule bit_word_eqI)
    fix n assume "n < LENGTH(8)"
    then have "n < 8" by simp
    from lt8_cases [OF this] show "bit (ucast (drop_bit 8 q) :: byte) n = bit b1 n"
      by (elim disjE; simp add: q_def pack3_def x3F_mask bit_simps byte_bit_high)
  qed
  have "quantumBytes 3 [ucast (drop_bit 18 ?v AND 0x3F), ucast (drop_bit 12 ?v AND 0x3F),
       ucast (drop_bit 6 ?v AND 0x3F)] = [ucast (drop_bit 16 q), ucast (drop_bit 8 q)]"
    unfolding quantumBytes_def q_def by (simp add: Let_def)
  then show ?thesis by (simp only: a b)
qed

lemma quantum2:
  "quantumBytes 2 [ucast (drop_bit 18 (pack3 b0 0 0) AND 0x3F), ucast (drop_bit 12 (pack3 b0 0 0) AND 0x3F)] = [b0]"
proof -
  let ?v = "pack3 b0 0 0"
  define q :: uint where "q = push_bit 18 (ucast (ucast (drop_bit 18 ?v AND 0x3F) :: byte)) OR push_bit 12 (ucast (ucast (drop_bit 12 ?v AND 0x3F) :: byte))
                  OR push_bit 6 (ucast (0 :: byte)) OR (ucast (0 :: byte) :: uint)"
  have a: "(ucast (drop_bit 16 q) :: byte) = b0"
  proof (rule bit_word_eqI)
    fix n assume "n < LENGTH(8)"
    then have "n < 8" by simp
    from lt8_cases [OF this] show "bit (ucast (drop_bit 16 q) :: byte) n = bit b0 n"
      by (elim disjE; simp add: q_def pack3_def x3F_mask bit_simps byte_bit_high)
  qed
  have "quantumBytes 2 [ucast (drop_bit 18 ?v AND 0x3F), ucast (drop_bit 12 ?v AND 0x3F)] = [ucast (drop_bit 16 q)]"
    unfolding quantumBytes_def q_def by (simp add: Let_def)
  then show ?thesis by (simp only: a)
qed

lemma decodeLoop4:
  "decodeLoop (encode6 v0 # encode6 v1 # encode6 v2 # encode6 v3 # src) [] =
     (case decodeLoop src [] of Inl e \<Rightarrow> Inl e
      | Inr dst \<Rightarrow> Inr (quantumBytes 4 [ucast (v0 AND 0x3F), ucast (v1 AND 0x3F), ucast (v2 AND 0x3F), ucast (v3 AND 0x3F)] @ dst))"
  by (simp add: decodeMap_encode6 ucast_and_3F_neq split: sum.split)

lemma decodeLoop3:
  "decodeLoop [encode6 v0, encode6 v1, encode6 v2] [] =
     Inr (quantumBytes 3 [ucast (v0 AND 0x3F), ucast (v1 AND 0x3F), ucast (v2 AND 0x3F)])"
  by (simp add: decodeMap_encode6 ucast_and_3F_neq numeral_3_eq_3)

lemma decodeLoop2:
  "decodeLoop [encode6 v0, encode6 v1] [] =
     Inr (quantumBytes 2 [ucast (v0 AND 0x3F), ucast (v1 AND 0x3F)])"
  by (simp add: decodeMap_encode6 ucast_and_3F_neq numeral_2_eq_2)

lemma Decode_Encode: "decodeLoop (EncodeToString bs) [] = Inr bs"
proof (induction bs rule: EncodeToString.induct)
  case (1 b0 b1 b2 src)
  have "decodeLoop (EncodeToString (b0 # b1 # b2 # src)) [] =
      (case decodeLoop (EncodeToString src) [] of Inl e \<Rightarrow> Inl e
       | Inr dst \<Rightarrow> Inr (quantumBytes 4 [ucast (drop_bit 18 (pack3 b0 b1 b2) AND 0x3F), ucast (drop_bit 12 (pack3 b0 b1 b2) AND 0x3F),
       ucast (drop_bit 6 (pack3 b0 b1 b2) AND 0x3F), ucast (pack3 b0 b1 b2 AND 0x3F)] @ dst))"
    by (simp only: EncodeToString.simps Let_def append.simps decodeLoop4 pack3_def)
  with 1 show ?case by (simp only: quantum4 sum.case append.simps)
next
  case (2 b0 b1)
  have "decodeLoop (EncodeToString [b0, b1]) [] =
      Inr (quantumBytes 3 [ucast (drop_bit 18 (pack3 b0 b1 0) AND 0x3F), ucast (drop_bit 12 (pack3 b0 b1 0) AND 0x3F),
       ucast (drop_bit 6 (pack3 b0 b1 0) AND 0x3F)])"
    by (simp add: Let_def decodeLoop3 pack3_def del: decodeLoop.simps)
  then show ?case by (simp only: quantum3)
next
  case (3 b0)
  have "decodeLoop (EncodeToString [b0]) [] =
      Inr (quantumBytes 2 [ucast (drop_bit 18 (pack3 b0 0 0) AND 0x3F), ucast (drop_bit 12 (pack3 b0 0 0) AND 0x3F)])"
    by (simp add: Let_def decodeLoop2 pack3_def del: decodeLoop.simps)
  then show ?case by (simp only: quantum2)
next
  case 4
  show ?case by simp
qed

lemma EncodeToString_alphabet: "set (EncodeToString bs) \<subseteq> set encodeStd"
  by (induction bs rule: EncodeToString.induct) (simp_all add: Let_def encode6_in)

lemma dollar_notin: "CHR ''$'' \<notin> set encodeStd"
  by (simp add: encodeStd_def)

subsection \<open>ConstantTimeCompare is equality\<close>

lemma ucast_byte_unat: "unat (ucast (v :: byte) :: uint32) = unat v"
proof -
  have "unat v < 2 ^ LENGTH(8)" by (rule unsigned_less)
  then have "unat v < 2 ^ 32" by simp
  then show ?thesis by (simp add: unsigned_ucast_eq take_bit_nat_eq_self_iff)
qed

lemma ucast_byte_minus_one: "v \<noteq> 0 \<Longrightarrow> unat ((ucast (v::byte) :: uint32) - 1) < 255"
proof -
  assume "v \<noteq> 0"
  then have "unat v \<noteq> 0" by (simp add: unat_eq_0)
  then have nz: "(ucast v :: uint32) \<noteq> 0" using ucast_byte_unat [of v] by (metis unat_eq_0)
  have "unat v < 2 ^ LENGTH(8)" by (rule unsigned_less)
  then have "unat v < 256" by simp
  then show ?thesis using unat_minus_one [OF nz] \<open>unat v \<noteq> 0\<close> by (simp add: ucast_byte_unat)
qed

lemma drop_bit_31_small: "unat (w :: uint32) < 255 \<Longrightarrow> drop_bit 31 w = 0"
proof -
  assume h: "unat w < 255"
  have "unat (drop_bit 31 w) = unat w div 2 ^ 31"
    by (metis drop_bit_eq_div unat_drop_bit_eq)
  with h have "unat (drop_bit 31 w) = 0" by simp
  then show ?thesis by (simp add: unat_eq_0)
qed

lemma ConstantTimeByteEq_zero: "ConstantTimeByteEq v 0 = (if v = 0 then 1 else 0)"
proof (cases "v = 0")
  case True
  then show ?thesis by (simp add: ConstantTimeByteEq_def)
next
  case False
  from drop_bit_31_small [OF ucast_byte_minus_one [OF False]] False show ?thesis by (simp add: ConstantTimeByteEq_def)
qed

lemma fold_or_zero:
  "fold (\<lambda>(a, b) v. v OR (a XOR b)) ps acc = (0 :: byte) \<longleftrightarrow> acc = 0 \<and> (\<forall>(a, b) \<in> set ps. a = b)"
proof (induction ps arbitrary: acc)
  case Nil
  then show ?case by simp
next
  case (Cons p ps)
  obtain a b where p: "p = (a, b)" by (cases p)
  have "a XOR b = 0 \<longleftrightarrow> a = b" by (metis bit.xor_left_self xor.right_neutral)
  with Cons [of "acc OR (a XOR b)"] p show ?case by (auto simp add: or_eq_0_iff)
qed

lemma ConstantTimeCompare_eq: "ConstantTimeCompare x y = (if x = y then 1 else 0)"
proof (cases "length x = length y")
  case False
  then show ?thesis by (auto simp add: ConstantTimeCompare_def)
next
  case True
  then have "x = y \<longleftrightarrow> (\<forall>(a, b) \<in> set (zip x y). a = b)"
    by (simp add: list_eq_iff_zip_eq)
  with True show ?thesis
    by (simp add: ConstantTimeCompare_def ConstantTimeByteEq_zero fold_or_zero)
qed

section \<open>Facts about the package\<close>

lemma EncodeToString_no_dollar: "CHR ''$'' \<notin> set (EncodeToString bs)"
  using EncodeToString_alphabet [of bs] dollar_notin by blast

lemma DecodeString_EncodeToString: "DecodeString (EncodeToString bs) = Inr bs"
  by (simp add: DecodeString_def Decode_Encode)

lemma Split_default_encoding:
  "Split (''$argon2id$v=19$m=65536,t=3,p=2$'' @ EncodeToString s @ ''$'' @ EncodeToString h) CHR ''$''
     = [[], ''argon2id'', ''v=19'', ''m=65536,t=3,p=2'', EncodeToString s, EncodeToString h]"
proof -
  have 1: "Split (EncodeToString s @ CHR ''$'' # EncodeToString h) CHR ''$'' = [EncodeToString s, EncodeToString h]"
    by (simp add: Split_append Split_no_sep EncodeToString_no_dollar)
  have 2: "Split (''m=65536,t=3,p=2'' @ CHR ''$'' # r) CHR ''$'' = ''m=65536,t=3,p=2'' # Split r CHR ''$''" for r
    by (rule Split_append) simp
  have 3: "Split (''v=19'' @ CHR ''$'' # r) CHR ''$'' = ''v=19'' # Split r CHR ''$''" for r
    by (rule Split_append) simp
  have 4: "Split (''argon2id'' @ CHR ''$'' # r) CHR ''$'' = ''argon2id'' # Split r CHR ''$''" for r
    by (rule Split_append) simp
  have 5: "Split ([] @ CHR ''$'' # r) CHR ''$'' = [] # Split r CHR ''$''" for r
    by (rule Split_append) simp
  have "''$argon2id$v=19$m=65536,t=3,p=2$'' @ EncodeToString s @ ''$'' @ EncodeToString h
      = [] @ CHR ''$'' # (''argon2id'' @ CHR ''$'' # (''v=19'' @ CHR ''$'' # (''m=65536,t=3,p=2'' @ CHR ''$'' # (EncodeToString s @ CHR ''$'' # EncodeToString h))))"
    by simp
  then show ?thesis by (simp only: 1 2 3 4 5)
qed

lemmas scan_defs = Sscanf_version_def Sscanf_options_def verb_d_int_def verb_d_uint_def
  scanInt_def scanUint_def scanNumber_def ParseInt_def ParseUint_def SkipSpace.simps
  decimalDigits_def sign_def maxUint64_def

lemma Sscanf_version_19: "Sscanf_version ''v=19'' = Inr 19"
  by (simp add: scan_defs)

lemma Sscanf_options_default: "Sscanf_options ''m=65536,t=3,p=2'' = Inr (65536, 3, 2)"
  by (simp add: scan_defs)

lemma NewByEncoded_default_encoding:
  "NewByEncoded (''$argon2id$v=19$m=65536,t=3,p=2$'' @ EncodeToString s @ ''$'' @ EncodeToString h)
     = (\<lparr>salt = Some s, iterations = 3, memory = 65536, parallelism = 2,
         keyLength = of_nat (length h), hashed = Some h, isValid = True\<rparr>, None)"
  unfolding NewByEncoded_def
  by (simp only: Split_default_encoding Let_def) 
     (simp add: encodedSlicesCount_def Sscanf_version_19 Sscanf_options_default Version_def DecodeString_EncodeToString)

lemma FormatUint_consts: "FormatUint 19 = ''19''" "FormatUint 65536 = ''65536''" "FormatUint 3 = ''3''" "FormatUint 2 = ''2''"
  by (simp_all add: FormatUint.simps)

lemma New_supplies:
  "New (RandSupplies f) derive P =
     Inr (\<lparr>salt = Some (map f [0..<16]), iterations = 3, memory = 65536, parallelism = 2,
           keyLength = 32,
           hashed = Some (map (derive (bytes_of_string P) (map f [0..<16]) 3 65536 2 32) [0..<32]),
           isValid = True\<rparr>, None)"
  by (simp add: New_def makeSalt_def Bytes_def saltLength_def makeHash_def IDKey_def slice_bytes_def
      const_iterations_def const_memory_def const_parallelism_def const_keyLength_def)

lemma New_fails:
  "New RandFails derive P = Inr (Argon2_zero, Some FailedToGenerateRandomBytes)"
  by (simp add: New_def makeSalt_def Bytes_def)

lemma Compare_eq:
  "Compare derive a c =
     (case IDKey derive (bytes_of_string c) (slice_bytes (salt a)) (iterations a) (memory a)
             (parallelism a) (keyLength a) of
        Inl p \<Rightarrow> Inl p
      | Inr key \<Rightarrow> Inr (key = slice_bytes (hashed a)))"
  by (auto simp add: Compare_def Compare_run_def makeHash_def ConstantTimeCompare_eq slice_bytes_def
      split: sum.split)

lemma New_example: "New example_rand example_derive ''password'' = Inr (example_hash, None)"
  by (simp add: example_rand_def New_supplies example_hash_def example_salt_def)

lemma String_example:
  "String example_hash =
     ''$argon2id$v=19$m=65536,t=3,p=2$AQgPFh0kKzI5QEdOVVxjag$8PHy8/T19vf4+fr7/P3+/wABAgMEBQYHCAkKCwwNDg8''"
  by (simp add: String_def example_hash_def example_salt_def example_derive_def
      bytes_of_string_def upt_rec FormatInt_def Version_def FormatUint.simps
      slice_bytes_def encode6_def encodeStd_def)

section \<open>The claims\<close>

text \<open>
  Claim C1 (round trip). Whenever \<open>New\<close> succeeds on a plaintext \<open>P\<close>, with any random
  source and any deterministic key derivation, parsing the rendering of the value it
  returns succeeds and gives that very value back, and comparing the parsed value
  against \<open>P\<close> returns true.
\<close>

theorem C1_roundtrip:
  assumes "New rnd derive P = Inr (a, None)"
  shows "NewByEncoded (String a) = (a, None)
    \<and> Compare derive (fst (NewByEncoded (String a))) P = Inr True"
proof -
  obtain f where rnd: "rnd = RandSupplies f"
    using assms by (cases rnd) (simp_all add: New_fails)
  let ?s = "map f [0..<16]"
  let ?h = "map (derive (bytes_of_string P) ?s 3 65536 2 32) [0..<32]"
  from assms rnd have a: "a = \<lparr>salt = Some ?s, iterations = 3, memory = 65536, parallelism = 2,
           keyLength = 32, hashed = Some ?h, isValid = True\<rparr>"
    by (simp add: New_supplies)
  have str: "String a =
      ''$argon2id$v=19$m=65536,t=3,p=2$'' @ EncodeToString ?s @ ''$'' @ EncodeToString ?h"
    by (simp add: a String_def FormatInt_def Version_def FormatUint_consts slice_bytes_def)
  have parse: "NewByEncoded (String a) = (a, None)"
    by (simp only: str NewByEncoded_default_encoding) (simp add: a)
  have "Compare derive a P = Inr True"
    by (simp add: Compare_eq a IDKey_def slice_bytes_def)
  with parse show ?thesis by simp
qed

theorem C1_roundtrip_witness:
  "New example_rand example_derive ''password'' = Inr (example_hash, None)
   \<and> NewByEncoded (String example_hash) = (example_hash, None)
   \<and> Compare example_derive (fst (NewByEncoded (String example_hash))) ''password'' = Inr True"
  using C1_roundtrip [OF New_example] New_example by blast

subsection \<open>Compare\<close>

lemma Compare_run_eq:
  "Compare_run derive a c =
     (case IDKey derive (bytes_of_string c) (slice_bytes (salt a)) (iterations a) (memory a)
             (parallelism a) (keyLength a) of
        Inl p \<Rightarrow> Inl p
      | Inr key \<Rightarrow> Inr (a, key = slice_bytes (hashed a)))"
  by (auto simp add: Compare_run_def makeHash_def ConstantTimeCompare_eq slice_bytes_def
      split: sum.split)

lemma one_le_word: "(1 :: 'a::len word) \<le> w \<longleftrightarrow> w \<noteq> 0"
  by (metis not_less word_less_1)

text \<open>
  Claim C2. For every hash value \<open>H\<close> and every candidate \<open>C\<close>, \<open>Compare\<close> returns true
  exactly when the key derivation applied to \<open>C\<close> with \<open>H\<close>'s own salt, iterations,
  memory, parallelism and key length returns exactly \<open>H\<close>'s stored hash; and when
  \<open>Compare\<close> returns, its receiver is as it was.
\<close>

theorem C2_Compare_iff:
  "(Compare derive H C = Inr True \<longleftrightarrow>
      IDKey derive (bytes_of_string C) (slice_bytes (salt H)) (iterations H) (memory H)
        (parallelism H) (keyLength H) = Inr (slice_bytes (hashed H)))
   \<and> (Compare_run derive H C = Inr (H', r) \<longrightarrow> H' = H \<and> Compare derive H C = Inr r)"
  by (auto simp add: Compare_eq Compare_run_eq split: sum.splits)

lemma Compare_run_example:
  "Compare_run example_derive example_hash ''password'' = Inr (example_hash, True)"
  by (simp add: Compare_run_def makeHash_def IDKey_def example_hash_def slice_bytes_def
      ConstantTimeCompare_eq)

theorem C2_Compare_iff_witness:
  "Compare_run example_derive example_hash ''password'' = Inr (example_hash, True)
   \<and> Compare example_derive example_hash ''password'' = Inr True
   \<and> IDKey example_derive (bytes_of_string ''password'') (slice_bytes (salt example_hash))
        (iterations example_hash) (memory example_hash) (parallelism example_hash)
        (keyLength example_hash) = Inr (slice_bytes (hashed example_hash))"
  using C2_Compare_iff [of example_derive example_hash "''password''" example_hash True]
    Compare_run_example by blast

text \<open>
  Claim C3, as the code has it. \<open>Compare\<close> returns a boolean exactly when the receiver's
  iterations, parallelism and key length are all at least 1; otherwise the panic of the
  key derivation leaves \<open>Compare\<close>. The zero value and a value parsed with \<open>t=0\<close> make it
  panic.
\<close>

theorem C3_Compare_returns_iff:
  "(\<exists>r. Compare derive a c = Inr r) \<longleftrightarrow>
     1 \<le> iterations a \<and> 1 \<le> parallelism a \<and> 1 \<le> keyLength a"
  by (auto simp add: Compare_eq IDKey_def not_less one_le_word split: sum.splits)

theorem C3_Compare_returns_iff_witness:
  "(1 :: uint32) \<le> iterations example_hash \<and> (1 :: uint8) \<le> parallelism example_hash
   \<and> (1 :: uint32) \<le> keyLength example_hash
   \<and> (\<exists>r. Compare example_derive example_hash ''password'' = Inr r)"
  using C3_Compare_returns_iff [of example_derive example_hash "''password''"]
  by (simp add: example_hash_def)

text \<open>
  Against claim C3 as it is stated: \<open>Compare\<close> on the zero value panics, and so it does
  on the value that parsing an encoding with \<open>t=0\<close> returns.
\<close>

theorem C3_Compare_panics:
  "Compare example_derive Argon2_zero ''password'' = Inl NumberOfRoundsTooSmall
   \<and> snd (NewByEncoded ''$argon2id$v=19$m=65536,t=0,p=2$c2FsdA$aGFzaA'') = None
   \<and> Compare example_derive (fst (NewByEncoded ''$argon2id$v=19$m=65536,t=0,p=2$c2FsdA$aGFzaA''))
        ''password'' = Inl NumberOfRoundsTooSmall"
  by (simp add: Compare_eq IDKey_def Argon2_zero_def NewByEncoded_def Split.simps
      encodedSlicesCount_def scan_defs Version_def DecodeString_def decodeMap_def encodeStd_def)

subsection \<open>NewByEncoded\<close>

lemmas NewByEncoded_eval = NewByEncoded_def Split.simps encodedSlicesCount_def scan_defs
  Version_def DecodeString_def decodeMap_def encodeStd_def quantumBytes_def

text \<open>
  Claim C4. \<open>NewByEncoded\<close> returns \<open>ErrInvalidEncodedHash\<close> exactly when splitting the
  input at \<open>$\<close> does not give six parts; the string of five fields
  \<open>$argon2id$v=19$m=65536,t=3,p=2$salt\<close> is rejected with this error.
\<close>

theorem C4_InvalidFormat_iff:
  "(snd (NewByEncoded encoded) = Some ErrInvalidEncodedHash
      \<longleftrightarrow> length (Split encoded CHR ''$'') \<noteq> 6)
   \<and> length (Split ''$argon2id$v=19$m=65536,t=3,p=2$salt'' CHR ''$'') = 5
   \<and> NewByEncoded ''$argon2id$v=19$m=65536,t=3,p=2$salt''
         = (Argon2_zero, Some ErrInvalidEncodedHash)"
proof (intro conjI)
  show "snd (NewByEncoded encoded) = Some ErrInvalidEncodedHash
      \<longleftrightarrow> length (Split encoded CHR ''$'') \<noteq> 6"
    by (simp add: NewByEncoded_def Let_def encodedSlicesCount_def split: sum.split prod.split)
  show "length (Split ''$argon2id$v=19$m=65536,t=3,p=2$salt'' CHR ''$'') = 5"
    by (simp add: Split.simps)
  show "NewByEncoded ''$argon2id$v=19$m=65536,t=3,p=2$salt''
         = (Argon2_zero, Some ErrInvalidEncodedHash)"
    by (simp add: NewByEncoded_def Split.simps encodedSlicesCount_def)
qed

text \<open>
  Claim C5. When the input has six fields and its third field scans as \<open>v=\<close> and an
  integer other than 19, \<open>NewByEncoded\<close> returns the zero value and
  \<open>ErrIncompatibleVersion\<close>, which is not the error of a wrong number of fields.
\<close>

theorem C5_IncompatibleVersion:
  assumes "length (Split encoded CHR ''$'') = 6"
    and "Sscanf_version (Split encoded CHR ''$'' ! 2) = Inr version"
    and "version \<noteq> 19"
  shows "NewByEncoded encoded = (Argon2_zero, Some ErrIncompatibleVersion)
    \<and> snd (NewByEncoded encoded) \<noteq> Some ErrInvalidEncodedHash"
  using assms by (simp add: NewByEncoded_def Let_def encodedSlicesCount_def Version_def)

theorem C5_IncompatibleVersion_witness:
  "length (Split ''$argon2id$v=1$m=65536,t=3,p=2$c2FsdA$aGFzaA'' CHR ''$'') = 6
   \<and> Sscanf_version (Split ''$argon2id$v=1$m=65536,t=3,p=2$c2FsdA$aGFzaA'' CHR ''$'' ! 2) = Inr 1
   \<and> NewByEncoded ''$argon2id$v=1$m=65536,t=3,p=2$c2FsdA$aGFzaA''
        = (Argon2_zero, Some ErrIncompatibleVersion)"
proof -
  have l: "length (Split ''$argon2id$v=1$m=65536,t=3,p=2$c2FsdA$aGFzaA'' CHR ''$'') = 6"
    by (simp add: Split.simps)
  have v: "Sscanf_version (Split ''$argon2id$v=1$m=65536,t=3,p=2$c2FsdA$aGFzaA'' CHR ''$'' ! 2)
      = Inr 1"
    by (simp add: Split.simps scan_defs)
  have n: "(1 :: int) \<noteq> 19" by simp
  from C5_IncompatibleVersion [OF l v n] l v show ?thesis by blast
qed

subsection \<open>New\<close>

text \<open>
  Claim C7. When the random source fails, \<open>New\<close> returns the zero value and the error.
  When it supplies bytes, \<open>New\<close> returns no error and a valid value whose salt is the 16
  bytes supplied, whose parameters are iterations 3, memory 65536, parallelism 2 and key
  length 32, and whose hash is the 32-byte key that \<open>IDKey\<close> derives from the plaintext
  and that salt with these parameters. \<open>New\<close> does not panic.
\<close>

theorem C7_New:
  "New RandFails derive P = Inr (Argon2_zero, Some FailedToGenerateRandomBytes)
   \<and> (\<exists>key. IDKey derive (bytes_of_string P) (map f [0..<16]) 3 65536 2 32 = Inr key
          \<and> length key = 32 \<and> length (map f [0..<16]) = 16
          \<and> New (RandSupplies f) derive P =
               Inr (\<lparr>salt = Some (map f [0..<16]), iterations = 3, memory = 65536,
                     parallelism = 2, keyLength = 32, hashed = Some key, isValid = True\<rparr>,
                    None))
   \<and> ((\<exists>a e. New rnd derive P = Inr (a, Some e)) \<longleftrightarrow> rnd = RandFails)"
proof (intro conjI)
  show "New RandFails derive P = Inr (Argon2_zero, Some FailedToGenerateRandomBytes)"
    by (rule New_fails)
  show "\<exists>key. IDKey derive (bytes_of_string P) (map f [0..<16]) 3 65536 2 32 = Inr key
          \<and> length key = 32 \<and> length (map f [0..<16]) = 16
          \<and> New (RandSupplies f) derive P =
               Inr (\<lparr>salt = Some (map f [0..<16]), iterations = 3, memory = 65536,
                     parallelism = 2, keyLength = 32, hashed = Some key, isValid = True\<rparr>,
                    None)"
    by (simp add: IDKey_def New_supplies)
  show "(\<exists>a e. New rnd derive P = Inr (a, Some e)) \<longleftrightarrow> rnd = RandFails"
    by (cases rnd) (simp_all add: New_fails New_supplies)
qed

subsection \<open>The zero value and Scan\<close>

text \<open>
  Claim C8. The zero value, and every value that is not valid, renders to the empty
  string and gives a nil value with no error under \<open>Value\<close>; \<open>Scan\<close> of nil reports no
  error and leaves an invalid value in its receiver, the zero value when the receiver
  was the zero value.
\<close>

theorem C8_zero_value:
  "String Argon2_zero = [] \<and> Value Argon2_zero = (VNil, None)
   \<and> String (a\<lparr>isValid := False\<rparr>) = [] \<and> Value (a\<lparr>isValid := False\<rparr>) = (VNil, None)
   \<and> Scan a VNil = (a\<lparr>isValid := False\<rparr>, None)
   \<and> Scan Argon2_zero VNil = (Argon2_zero, None)"
  by (simp add: String_def Value_def Scan_def Argon2_zero_def)

lemma NewByEncoded_error_zero: "NewByEncoded s = (a, Some e) \<Longrightarrow> a = Argon2_zero"
  by (auto simp add: NewByEncoded_def Let_def split: if_splits sum.splits prod.splits)

text \<open>
  Claim C10. \<open>Scan\<close> returns an error in two cases only. Its input is a string that
  \<open>NewByEncoded\<close> rejects: then the receiver has become the zero value, whatever it
  held. Or its input is neither nil nor a string: then the receiver is as it was.
\<close>

theorem C10_Scan_error:
  "Scan a src = (a', Some e) \<longleftrightarrow>
     (\<exists>s e'. src = VString s \<and> snd (NewByEncoded s) = Some e'
              \<and> e = CannotScan e' \<and> a' = Argon2_zero)
     \<or> (src \<noteq> VNil \<and> (\<forall>s. src \<noteq> VString s) \<and> e = ErrScan \<and> a' = a)"
proof (cases src)
  case VNil
  then show ?thesis by (simp add: Scan_def)
next
  case (VString s)
  obtain b eo where p: "NewByEncoded s = (b, eo)" by (cases "NewByEncoded s")
  show ?thesis
  proof (cases eo)
    case None
    with p VString show ?thesis by (simp add: Scan_def)
  next
    case (Some e')
    with p have "b = Argon2_zero" by (simp add: NewByEncoded_error_zero)
    with p Some VString show ?thesis by (auto simp add: Scan_def)
  qed
next
  case (VBytes x)
  then show ?thesis by (auto simp add: Scan_def)
next
  case (VInt64 x)
  then show ?thesis by (auto simp add: Scan_def)
next
  case (VBool x)
  then show ?thesis by (auto simp add: Scan_def)
qed

theorem C10_Scan_error_witness:
  "Scan example_hash (VString ''$argon2id$v=19$m=65536,t=3,p=2$salt'')
      = (Argon2_zero, Some (CannotScan ErrInvalidEncodedHash))
   \<and> example_hash \<noteq> Argon2_zero
   \<and> Scan example_hash (VInt64 7) = (example_hash, Some ErrScan)"
proof -
  have 1: "Scan example_hash (VString ''$argon2id$v=19$m=65536,t=3,p=2$salt'')
      = (Argon2_zero, Some (CannotScan ErrInvalidEncodedHash))"
    by (simp add: Scan_def NewByEncoded_def Split.simps encodedSlicesCount_def)
  have 2: "Scan example_hash (VInt64 7) = (example_hash, Some ErrScan)"
    by (simp add: Scan_def)
  have 3: "example_hash \<noteq> Argon2_zero"
    by (simp add: example_hash_def Argon2_zero_def)
  from C10_Scan_error [of example_hash "VInt64 7" example_hash ErrScan] 1 2 3
  show ?thesis by blast
qed

subsection \<open>The decoder accepts every text over the alphabet of a possible length\<close>

lemma decodeMap_alphabet: "c \<in> set encodeStd \<Longrightarrow> decodeMap c \<noteq> 0xFF"
proof -
  assume "c \<in> set encodeStd"
  then obtain k where k: "k < 64" and c: "c = encodeStd ! k"
    by (auto simp add: in_set_conv_nth encodeStd_length)
  have "unat (of_nat k :: byte) = k" using k by (simp add: unat_of_nat)
  with k have "(of_nat k :: byte) \<noteq> 0xFF" by auto
  with k c show ?thesis by (simp add: decodeMap_nth)
qed

lemma decodeLoop_alphabet:
  "list_all (\<lambda>c. c \<in> set encodeStd) s \<Longrightarrow> length dbuf < 4 \<Longrightarrow>
     isl (decodeLoop s dbuf) \<longleftrightarrow> (length dbuf + length s) mod 4 = 1"
proof (induction s arbitrary: dbuf)
  case Nil
  have "length dbuf = 0 \<or> length dbuf = 1 \<or> length dbuf = 2 \<or> length dbuf = 3"
    using Nil.prems by arith
  then show ?case by (elim disjE) simp_all
next
  case (Cons c s)
  then have c: "decodeMap c \<noteq> 0xFF" by (simp add: decodeMap_alphabet)
  from Cons.prems have s: "list_all (\<lambda>c. c \<in> set encodeStd) s" by simp
  show ?case
  proof (cases "length dbuf = 3")
    case True
    have "isl (decodeLoop (c # s) dbuf) = isl (decodeLoop s [])"
      using c True by (simp add: Let_def split: sum.split)
    also have "\<dots> \<longleftrightarrow> length s mod 4 = 1"
      using Cons.IH [OF s, of "[]"] by simp
    also have "\<dots> \<longleftrightarrow> (length dbuf + length (c # s)) mod 4 = 1"
      using True by (simp add: mod_Suc)
    finally show ?thesis .
  next
    case False
    with Cons.prems have l: "length (dbuf @ [decodeMap c]) < 4" by simp
    have "isl (decodeLoop (c # s) dbuf) = isl (decodeLoop s (dbuf @ [decodeMap c]))"
      using c False by (simp add: Let_def)
    also have "\<dots> \<longleftrightarrow> (length (dbuf @ [decodeMap c]) + length s) mod 4 = 1"
      by (rule Cons.IH [OF s l])
    finally show ?thesis by simp
  qed
qed

lemma DecodeString_spec: "spec_raw_base64 s \<Longrightarrow> \<not> isl (DecodeString s)"
  using decodeLoop_alphabet [of s "[]"] by (simp add: spec_raw_base64_def DecodeString_def)

subsection \<open>The scanner accepts every field of the exact form\<close>

lemma Split_single: "Split s sep = [x] \<Longrightarrow> s = x \<and> sep \<notin> set x"
proof -
  assume h: "Split s sep = [x]"
  show ?thesis
  proof (cases "dropWhile (\<lambda>c. c \<noteq> sep) s")
    case Nil
    then have "Split s sep = [s]" by (subst Split.simps) (simp only: list.case)
    moreover from Nil have "sep \<notin> set s" by (auto simp add: dropWhile_eq_Nil_conv)
    ultimately show ?thesis using h by simp
  next
    case (Cons y rest)
    then have "Split s sep = takeWhile (\<lambda>c. c \<noteq> sep) s # Split rest sep"
      by (subst Split.simps) (simp only: list.case)
    with h have "Split rest sep = []" by simp
    moreover have "Split rest sep \<noteq> []"
      by (subst Split.simps) (simp split: list.split)
    ultimately show ?thesis by simp
  qed
qed

lemma Split_more:
  "Split s sep = x # y # ys \<Longrightarrow> \<exists>t. s = x @ sep # t \<and> sep \<notin> set x \<and> Split t sep = y # ys"
proof -
  assume h: "Split s sep = x # y # ys"
  show ?thesis
  proof (cases "dropWhile (\<lambda>c. c \<noteq> sep) s")
    case Nil
    then have "Split s sep = [s]" by (subst Split.simps) (simp only: list.case)
    with h show ?thesis by simp
  next
    case (Cons z rest)
    then have z: "z = sep" using hd_dropWhile [of "\<lambda>c. c \<noteq> sep" s] by auto
    from Cons have "Split s sep = takeWhile (\<lambda>c. c \<noteq> sep) s # Split rest sep"
      by (subst Split.simps) (simp only: list.case)
    with h have x: "x = takeWhile (\<lambda>c. c \<noteq> sep) s" and r: "Split rest sep = y # ys" by simp_all
    have "s = takeWhile (\<lambda>c. c \<noteq> sep) s @ dropWhile (\<lambda>c. c \<noteq> sep) s" by simp
    with Cons z x have "s = x @ sep # rest" by simp
    moreover have "sep \<notin> set x" unfolding x by (auto dest: set_takeWhileD)
    ultimately show ?thesis using r by blast
  qed
qed

lemma Split_three:
  "Split s sep = [a, b, c] \<Longrightarrow> s = a @ sep # b @ sep # c"
proof -
  assume "Split s sep = [a, b, c]"
  from Split_more [OF this] obtain t where s: "s = a @ sep # t" and t: "Split t sep = [b, c]"
    by blast
  from Split_more [OF t] obtain u where t': "t = b @ sep # u" and u: "Split u sep = [c]"
    by blast
  from Split_single [OF u] s t' show ?thesis by simp
qed

lemma isDigit_range:
  "isDigit c \<Longrightarrow> of_char CHR ''0'' \<le> (of_char c :: nat) \<and> (of_char c :: nat) \<le> of_char CHR ''9''"
  by (auto simp add: isDigit_def)

lemma isDigit_decimalDigits: "isDigit c \<Longrightarrow> c \<in> set decimalDigits"
  by (auto simp add: isDigit_def decimalDigits_def)

lemma isDigit_no_space: "isDigit c \<Longrightarrow> SkipSpace (c # cs) = Inr (c # cs)"
  by (subst SkipSpace.simps) (auto simp add: isDigit_def)

lemma foldl_dstep_mono: "n \<le> foldl dstep n ds"
proof (induction ds arbitrary: n)
  case Nil
  show ?case by simp
next
  case (Cons c ds)
  have "n \<le> dstep n c" by (simp add: dstep_def)
  also have "\<dots> \<le> foldl dstep (dstep n c) ds" by (rule Cons.IH)
  finally show ?case by simp
qed

lemma ParseUint_loop_digits:
  "list_all isDigit ds \<Longrightarrow> foldl dstep n ds \<le> maxUint64 \<Longrightarrow>
     ParseUint_loop ds n = Inr (foldl dstep n ds)"
proof (induction ds arbitrary: n)
  case Nil
  show ?case by simp
next
  case (Cons c ds)
  from Cons.prems have d: "isDigit c" and ds: "list_all isDigit ds" by simp_all
  have "dstep n c \<le> foldl dstep (dstep n c) ds" by (rule foldl_dstep_mono)
  with Cons.prems have le: "dstep n c \<le> maxUint64" by simp
  then have "n * 10 \<le> maxUint64" by (simp add: dstep_def)
  then have n: "\<not> maxUint64 div 10 + 1 \<le> n" by (simp add: maxUint64_def)
  from le n isDigit_range [OF d]
  have step: "ParseUint_loop (c # ds) n = ParseUint_loop ds (dstep n c)"
    by (simp add: dstep_def)
  from Cons.prems have "foldl dstep (dstep n c) ds \<le> maxUint64" by simp
  from Cons.IH [OF ds this] have "ParseUint_loop ds (dstep n c) = Inr (foldl dstep (dstep n c) ds)" .
  with step show ?case by simp
qed

lemma decimal_value_dstep: "decimal_value ds = foldl dstep 0 ds"
  by (simp add: decimal_value_def)

lemma scanNumber_digits:
  assumes "ds \<noteq> []" and "list_all isDigit ds" and "rest = [] \<or> hd rest \<notin> set decimalDigits"
  shows "scanNumber (ds @ rest) = Inr (ds, rest)"
proof -
  from assms(2) have all: "\<And>c. c \<in> set ds \<Longrightarrow> c \<in> set decimalDigits"
    by (auto simp add: list_all_iff isDigit_decimalDigits)
  have tw: "takeWhile (\<lambda>c. c \<in> set decimalDigits) (ds @ rest) = ds"
    using assms(3) all by (cases rest) (simp_all add: takeWhile_append2)
  have dw: "dropWhile (\<lambda>c. c \<in> set decimalDigits) (ds @ rest) = rest"
    using assms(3) all by (cases rest) (simp_all add: dropWhile_append2)
  from assms(1) all have "hd (ds @ rest) \<in> set decimalDigits" by (cases ds) simp_all
  with assms(1) tw dw show ?thesis by (simp add: scanNumber_def)
qed

lemma verb_d_uint_digits:
  assumes "spec_uint bits ds" and "bits \<le> 64" and "rest = [] \<or> hd rest \<notin> set decimalDigits"
  shows "verb_d_uint bits (ds @ rest) = Inr (decimal_value ds, rest)"
proof -
  from assms(1) have ne: "ds \<noteq> []" and all: "list_all isDigit ds"
    and v: "decimal_value ds < 2 ^ bits" by (simp_all add: spec_uint_def)
  from ne obtain c cs where ds: "ds = c # cs" by (cases ds) auto
  with all have "isDigit c" by simp
  then have sk: "SkipSpace (ds @ rest) = Inr (ds @ rest)" by (simp add: ds isDigit_no_space)
  have "(2 :: nat) ^ bits \<le> 2 ^ 64" using assms(2) by (rule power_increasing) simp
  with v have "decimal_value ds \<le> maxUint64" by (simp add: maxUint64_def)
  with all have pu: "ParseUint ds = Inr (decimal_value ds)"
    using ne by (simp add: ParseUint_def decimal_value_dstep ParseUint_loop_digits)
  from ne have ne': "ds @ rest \<noteq> []" by simp
  show ?thesis
    using v ne' by (simp add: verb_d_uint_def scanUint_def sk scanNumber_digits [OF ne all assms(3)] pu)
qed

lemma Sscanf_options_exact:
  assumes "spec_uint 32 dm" and "spec_uint 32 dt" and "spec_uint 8 dp"
  shows "Sscanf_options (''m='' @ dm @ '',t='' @ dt @ '',p='' @ dp)
           = Inr (of_nat (decimal_value dm), of_nat (decimal_value dt), of_nat (decimal_value dp))"
proof -
  have c: "hd ('',t='' @ r) \<notin> set decimalDigits" "hd ('',p='' @ r) \<notin> set decimalDigits" for r
    by (simp_all add: decimalDigits_def)
  have 1: "verb_d_uint 32 (dm @ '',t='' @ dt @ '',p='' @ dp)
      = Inr (decimal_value dm, '',t='' @ dt @ '',p='' @ dp)"
    by (rule verb_d_uint_digits [OF assms(1)]) (simp_all add: decimalDigits_def)
  have 2: "verb_d_uint 32 (dt @ '',p='' @ dp) = Inr (decimal_value dt, '',p='' @ dp)"
    by (rule verb_d_uint_digits [OF assms(2)]) (simp_all add: decimalDigits_def)
  have 3: "verb_d_uint 8 (dp @ []) = Inr (decimal_value dp, [])"
    by (rule verb_d_uint_digits [OF assms(3)]) simp_all
  show ?thesis
    using 1 2 3 by (simp add: Sscanf_options_def)
qed

lemma spec_key_uint_form:
  "spec_key_uint key bits part \<Longrightarrow> \<exists>ds. part = key @ ds \<and> spec_uint bits ds"
proof -
  assume h: "spec_key_uint key bits part"
  have "part = take (length key) part @ drop (length key) part" by simp
  with h show ?thesis unfolding spec_key_uint_def by metis
qed

lemma Sscanf_options_spec: "spec_options_field field \<Longrightarrow> \<not> isl (Sscanf_options field)"
proof -
  assume h: "spec_options_field field"
  then obtain pm pt pp where sp: "Split field CHR '','' = [pm, pt, pp]"
    and m: "spec_key_uint ''m='' 32 pm" and t: "spec_key_uint ''t='' 32 pt"
    and p: "spec_key_uint ''p='' 8 pp"
    by (auto simp add: spec_options_field_def split: list.splits)
  from spec_key_uint_form [OF m] obtain dm where dm: "pm = ''m='' @ dm" "spec_uint 32 dm" by blast
  from spec_key_uint_form [OF t] obtain dt where dt: "pt = ''t='' @ dt" "spec_uint 32 dt" by blast
  from spec_key_uint_form [OF p] obtain dp where dp: "pp = ''p='' @ dp" "spec_uint 8 dp" by blast
  from Split_three [OF sp] dm dt dp
  have "field = ''m='' @ dm @ '',t='' @ dt @ '',p='' @ dp" by simp
  with Sscanf_options_exact [OF dm(2) dt(2) dp(2)] show ?thesis by simp
qed

text \<open>
  Claim C6, as the code has it. For an input of six fields whose version field scans as
  19: \<open>NewByEncoded\<close> returns a decode error exactly when the scanner rejects the fourth
  field or the decoder rejects the fifth or the sixth, and returns a valid value and no
  error otherwise; and a fourth field of the exact form \<open>m=<uint>,t=<uint>,p=<uint>\<close>
  with fifth and sixth fields over the base64 alphabet is never rejected.
\<close>

theorem C6_DecodeFailure:
  assumes "length (Split encoded CHR ''$'') = 6"
    and "Sscanf_version (Split encoded CHR ''$'' ! 2) = Inr 19"
  shows "(is_DecodeFailure (snd (NewByEncoded encoded)) \<longleftrightarrow>
            isl (Sscanf_options (Split encoded CHR ''$'' ! 3))
            \<or> isl (DecodeString (Split encoded CHR ''$'' ! 4))
            \<or> isl (DecodeString (Split encoded CHR ''$'' ! 5)))
    \<and> (\<not> is_DecodeFailure (snd (NewByEncoded encoded)) \<longrightarrow>
            snd (NewByEncoded encoded) = None \<and> isValid (fst (NewByEncoded encoded)))
    \<and> (spec_options_field (Split encoded CHR ''$'' ! 3)
          \<and> spec_raw_base64 (Split encoded CHR ''$'' ! 4)
          \<and> spec_raw_base64 (Split encoded CHR ''$'' ! 5) \<longrightarrow>
            snd (NewByEncoded encoded) = None)"
proof -
  let ?v = "Split encoded CHR ''$''"
  have eq: "NewByEncoded encoded =
     (case DecodeString (?v ! 4) of
        Inl e \<Rightarrow> (Argon2_zero, Some (FailedToDecodeSalt e))
      | Inr salt' \<Rightarrow>
          (case DecodeString (?v ! 5) of
             Inl e \<Rightarrow> (Argon2_zero, Some (FailedToDecodeHashed e))
           | Inr hashed' \<Rightarrow>
               (case Sscanf_options (?v ! 3) of
                  Inl e \<Rightarrow> (Argon2_zero, Some (FailedToDecodeOptions e))
                | Inr (m, i, p) \<Rightarrow>
                    (\<lparr>salt = Some salt', iterations = i, memory = m, parallelism = p,
                      keyLength = of_nat (length hashed'), hashed = Some hashed',
                      isValid = True\<rparr>, None))))"
    using assms by (simp add: NewByEncoded_def Let_def encodedSlicesCount_def Version_def)
  have 1: "is_DecodeFailure (snd (NewByEncoded encoded)) \<longleftrightarrow>
            isl (Sscanf_options (?v ! 3)) \<or> isl (DecodeString (?v ! 4))
            \<or> isl (DecodeString (?v ! 5))"
    unfolding eq by (auto split: sum.splits prod.splits)
  have 2: "\<not> is_DecodeFailure (snd (NewByEncoded encoded)) \<longrightarrow>
            snd (NewByEncoded encoded) = None \<and> isValid (fst (NewByEncoded encoded))"
    unfolding eq by (auto split: sum.splits prod.splits)
  have 3: "spec_options_field (?v ! 3) \<and> spec_raw_base64 (?v ! 4) \<and> spec_raw_base64 (?v ! 5)
      \<longrightarrow> snd (NewByEncoded encoded) = None"
    using 1 2 Sscanf_options_spec [of "?v ! 3"] DecodeString_spec [of "?v ! 4"]
      DecodeString_spec [of "?v ! 5"] by blast
  from 1 2 3 show ?thesis by blast
qed

theorem C6_DecodeFailure_witness:
  "length (Split ''$argon2id$v=19$m=65536,t=3,p=2$c2FsdA$aGFzaA'' CHR ''$'') = 6
   \<and> Sscanf_version (Split ''$argon2id$v=19$m=65536,t=3,p=2$c2FsdA$aGFzaA'' CHR ''$'' ! 2) = Inr 19
   \<and> spec_options_field (Split ''$argon2id$v=19$m=65536,t=3,p=2$c2FsdA$aGFzaA'' CHR ''$'' ! 3)
   \<and> spec_raw_base64 (Split ''$argon2id$v=19$m=65536,t=3,p=2$c2FsdA$aGFzaA'' CHR ''$'' ! 4)
   \<and> spec_raw_base64 (Split ''$argon2id$v=19$m=65536,t=3,p=2$c2FsdA$aGFzaA'' CHR ''$'' ! 5)
   \<and> snd (NewByEncoded ''$argon2id$v=19$m=65536,t=3,p=2$c2FsdA$aGFzaA'') = None
   \<and> \<not> is_DecodeFailure (snd (NewByEncoded ''$argon2id$v=19$m=65536,t=3,p=2$c2FsdA$aGFzaA''))"
proof -
  let ?e = "''$argon2id$v=19$m=65536,t=3,p=2$c2FsdA$aGFzaA''"
  have l: "length (Split ?e CHR ''$'') = 6" by (simp add: Split.simps)
  have v: "Sscanf_version (Split ?e CHR ''$'' ! 2) = Inr 19" by (simp add: Split.simps scan_defs)
  have o: "spec_options_field (Split ?e CHR ''$'' ! 3)"
    by (simp add: Split.simps spec_options_field_def spec_key_uint_def spec_uint_def isDigit_def
        decimal_value_def dstep_def)
  have s: "spec_raw_base64 (Split ?e CHR ''$'' ! 4)"
    by (simp add: Split.simps spec_raw_base64_def encodeStd_def)
  have h: "spec_raw_base64 (Split ?e CHR ''$'' ! 5)"
    by (simp add: Split.simps spec_raw_base64_def encodeStd_def)
  from C6_DecodeFailure [OF l v] l v o s h show ?thesis by simp
qed

text \<open>
  Against claim C6 as it is stated: the fourth field \<open>m=65536,t=3,p=2junk\<close> is not of the
  form \<open>m=<uint>,t=<uint>,p=<uint>\<close>, and the input parses without an error, to the
  parameters 65536, 3 and 2.
\<close>

theorem C6_trailing_text_accepted:
  "length (Split ''$argon2id$v=19$m=65536,t=3,p=2junk$c2FsdA$aGFzaA'' CHR ''$'') = 6
   \<and> Sscanf_version (Split ''$argon2id$v=19$m=65536,t=3,p=2junk$c2FsdA$aGFzaA'' CHR ''$'' ! 2)
        = Inr 19
   \<and> Split ''$argon2id$v=19$m=65536,t=3,p=2junk$c2FsdA$aGFzaA'' CHR ''$'' ! 3
        = ''m=65536,t=3,p=2junk''
   \<and> \<not> spec_options_field ''m=65536,t=3,p=2junk''
   \<and> NewByEncoded ''$argon2id$v=19$m=65536,t=3,p=2junk$c2FsdA$aGFzaA''
        = (\<lparr>salt = Some (bytes_of_string ''salt''), iterations = 3, memory = 65536,
            parallelism = 2, keyLength = 4, hashed = Some (bytes_of_string ''hash''),
            isValid = True\<rparr>, None)"
proof (intro conjI)
  show "length (Split ''$argon2id$v=19$m=65536,t=3,p=2junk$c2FsdA$aGFzaA'' CHR ''$'') = 6"
    by (simp add: Split.simps)
  show "Sscanf_version (Split ''$argon2id$v=19$m=65536,t=3,p=2junk$c2FsdA$aGFzaA'' CHR ''$'' ! 2)
        = Inr 19"
    by (simp add: Split.simps scan_defs)
  show "Split ''$argon2id$v=19$m=65536,t=3,p=2junk$c2FsdA$aGFzaA'' CHR ''$'' ! 3
        = ''m=65536,t=3,p=2junk''"
    by (simp add: Split.simps)
  show "\<not> spec_options_field ''m=65536,t=3,p=2junk''"
    by (simp add: Split.simps spec_options_field_def spec_key_uint_def spec_uint_def isDigit_def)
  show "NewByEncoded ''$argon2id$v=19$m=65536,t=3,p=2junk$c2FsdA$aGFzaA''
        = (\<lparr>salt = Some (bytes_of_string ''salt''), iterations = 3, memory = 65536,
            parallelism = 2, keyLength = 4, hashed = Some (bytes_of_string ''hash''),
            isValid = True\<rparr>, None)"
    by (simp add: NewByEncoded_eval bytes_of_string_def)
qed

end
